theory Spec2Isabelle
  imports Complex_Main "HOL-Library.AList"
begin

section \<open>Data model of \<open>batch_dataset.ts\<close>\<close>

text \<open>
  JavaScript numbers are kept abstract: the type variable \<open>'n\<close> stands for them, and the
  conversion that a \<open>Float32Array\<close> applies to whatever is stored into it
  (\<open>ToNumber\<close>, then rounding to 32 bits) is a parameter \<open>toFloat32\<close> of the functions
  that write into such a buffer. The only number the code itself creates is the \<open>0\<close> that
  fills a new typed array, hence the sort \<open>zero\<close>.
\<close>

datatype error =
    TypeError
  | RangeError
  | BatchingFailedToGetValue string
  | ElementsMustHaveSameShape

text \<open>
  \<open>TypeError\<close> and \<open>RangeError\<close> are the errors of the JavaScript runtime
  (\<open>Object.keys(undefined)\<close>, a method call on \<open>undefined\<close>,
  \<open>TypedArray.set\<close> past the end). The other two are the two \<open>throw new Error(...)\<close>
  of the source, named after their messages.
\<close>

datatype 'n tensor = Tensor (shape: "nat list") (dataSync: "'n list")

text \<open>
  What \<open>e[key]\<close> can be at run time for a \<open>DatasetElement\<close>: a number, a
  \<open>number[]\<close>, a \<open>Tensor\<close>, a string, or \<open>undefined\<close> when the element
  has no such key.
\<close>

datatype 'n element_value =
    Undefined
  | Text string
  | Scalar 'n
  | NumericArray "'n list"
  | TensorValue "'n tensor"

text \<open>The entries of the flat array that \<open>shapeAndValues\<close> returns.\<close>

datatype 'n flat_value = Num 'n | Str string | Undef

text \<open>
  A \<open>DatasetElement\<close> is a JavaScript object, written as an association list. An
  association list denotes the object whose own keys are \<open>Object_keys\<close> (never a key
  twice, as for every object) and whose property read is \<open>get_field\<close>. A key that
  the element lacks reads as \<open>undefined\<close>; a member inherited from
  \<open>Object.prototype\<close>, which the code would handle in the same way (no dimensions,
  a single entry), is not told apart from it.
\<close>

type_synonym 'n DatasetElement = "(string \<times> 'n element_value) list"

definition Object_keys :: "(string \<times> 'v) list \<Rightarrow> string list" where
  "Object_keys obj = remdups (map fst obj)"

definition get_field :: "'n DatasetElement \<Rightarrow> string \<Rightarrow> 'n element_value" where
  "get_field e key = (case map_of e key of None \<Rightarrow> Undefined | Some v \<Rightarrow> v)"

datatype 'n batch_value =
    BatchTensor "'n tensor"
  | StringArray "'n element_value list"

text \<open>
  The \<open>DatasetBatch\<close> is an object that the code builds by assignments
  \<open>result[key] = value\<close> to a fresh \<open>{}\<close>: its own properties, in insertion order,
  and its prototype slot. Every value assigned is an object (an array or a
  \<open>Tensor\<close>), and assigning an object to the key \<open>__proto__\<close> of such an object
  sets its prototype and creates no own property; reading \<open>result['__proto__']\<close>
  gives the prototype back. \<open>get_property\<close> is the read \<open>result[key]\<close> for a key
  that has been assigned, \<open>own_keys\<close> is \<open>Object.keys(result)\<close>.
\<close>

record 'v js_object =
  own_properties :: "(string \<times> 'v) list"
  prototype_slot :: "'v option"

definition empty_object :: "'v js_object" where
  "empty_object = \<lparr>own_properties = [], prototype_slot = None\<rparr>"

definition set_property :: "string \<Rightarrow> 'v \<Rightarrow> 'v js_object \<Rightarrow> 'v js_object" where
  "set_property key v obj =
     (if key = ''__proto__'' then obj\<lparr>prototype_slot := Some v\<rparr>
      else obj\<lparr>own_properties := AList.update key v (own_properties obj)\<rparr>)"

definition get_property :: "'v js_object \<Rightarrow> string \<Rightarrow> 'v option" where
  "get_property obj key =
     (if key = ''__proto__'' then prototype_slot obj else map_of (own_properties obj) key)"


type_synonym 'n DatasetBatch = "'n batch_value js_object"

section \<open>\<open>shapeAndValues\<close>\<close>

fun shapeAndValues :: "'n element_value \<Rightarrow> nat list \<times> 'n flat_value list" where
  "shapeAndValues (TensorValue t) = (shape t, map Num (dataSync t))"
| "shapeAndValues (NumericArray array) = ([length array], map Num array)"
| "shapeAndValues (Scalar x) = ([], [Num x])"
| "shapeAndValues (Text s) = ([], [Str s])"
| "shapeAndValues Undefined = ([], [Undef])"

section \<open>\<open>batchConcat\<close>\<close>

text \<open>
  Modelled from the spec: \<open>util.arraysEqual\<close> is imported from a module that is not
  among the sources; the spec compares the two shapes for equality
  (\<open>shape != elementShape\<close>).
\<close>

definition arraysEqual :: "nat list \<Rightarrow> nat list \<Rightarrow> bool" where
  "arraysEqual n1 n2 = (n1 = n2)"

text \<open>
  \<open>resultVals.set(aVals, offset)\<close>: the runtime throws a \<open>RangeError\<close> when the
  source does not fit behind the offset, and otherwise overwrites that slice.
\<close>

definition Float32Array_set :: "'n list \<Rightarrow> 'n list \<Rightarrow> nat \<Rightarrow> error + 'n list" where
  "Float32Array_set target src offset =
     (if length target < offset + length src then Inl RangeError
      else Inr (take offset target @ src @ drop (offset + length src) target))"

text \<open>The \<open>for (const a of arrays)\<close> loop, with \<open>resultVals\<close> and \<open>offset\<close> as state.\<close>

fun batchConcat_loop ::
  "('n flat_value \<Rightarrow> 'n) \<Rightarrow> nat list \<Rightarrow> 'n element_value list \<Rightarrow> 'n list \<Rightarrow> nat
     \<Rightarrow> error + 'n list" where
  "batchConcat_loop toFloat32 elementShape [] resultVals offset = Inr resultVals"
| "batchConcat_loop toFloat32 elementShape (a # arrays) resultVals offset =
     (case shapeAndValues a of (aShape, aVals) \<Rightarrow>
        if \<not> arraysEqual aShape elementShape then Inl ElementsMustHaveSameShape
        else (case Float32Array_set resultVals (map toFloat32 aVals) offset of
                Inl err \<Rightarrow> Inl err
              | Inr resultVals' \<Rightarrow>
                  batchConcat_loop toFloat32 elementShape arrays resultVals'
                    (offset + length aVals)))"

text \<open>\<open>arrays[0]\<close> is \<open>undefined\<close> for an empty array.\<close>

definition first_value :: "'n element_value list \<Rightarrow> 'n element_value" where
  "first_value arrays = (case arrays of [] \<Rightarrow> Undefined | a # _ \<Rightarrow> a)"

definition batchConcat ::
  "('n flat_value \<Rightarrow> 'n) \<Rightarrow> 'n::zero element_value list \<Rightarrow> error + 'n tensor" where
  "batchConcat toFloat32 arrays =
     (case shapeAndValues (first_value arrays) of (elementShape, _) \<Rightarrow>
        let batchShape = length arrays # elementShape;
            resultVals = replicate (foldl (*) (length arrays) elementShape) 0
        in case batchConcat_loop toFloat32 elementShape arrays resultVals 0 of
             Inl err \<Rightarrow> Inl err
           | Inr resultVals' \<Rightarrow> Inr (Tensor batchShape resultVals'))"

section \<open>\<open>makeDatasetBatch\<close>\<close>

type_synonym 'n rotated = "(string \<times> 'n element_value list) list"

text \<open>
  \<open>rotated\<close> is only read and written at given keys and never enumerated, so it is
  kept as the list of its slots \<open>rotated[key]\<close>: for the key \<open>__proto__\<close> the
  assignment \<open>rotated[key] = []\<close> puts the array into the prototype slot, where
  \<open>rotated[key]\<close> finds it again, and the entry under that key stands for this slot.
\<close>

text \<open>\<open>keys.forEach(key => { rotated[key] = []; })\<close>\<close>

definition init_rotated :: "string list \<Rightarrow> 'n rotated" where
  "init_rotated keys = foldl (\<lambda>rotated key. AList.update key [] rotated) [] keys"

text \<open>
  \<open>rotated[key].push(value)\<close>; calling \<open>push\<close> on \<open>undefined\<close> would be a
  \<open>TypeError\<close>.
\<close>

definition push_value :: "string \<Rightarrow> 'n element_value \<Rightarrow> 'n rotated \<Rightarrow> error + 'n rotated" where
  "push_value key v rotated =
     (case map_of rotated key of
        None \<Rightarrow> Inl TypeError
      | Some vs \<Rightarrow> Inr (AList.update key (vs @ [v]) rotated))"

text \<open>The inner \<open>keys.forEach\<close> for one element \<open>e\<close>.\<close>

fun rotate_element :: "string list \<Rightarrow> 'n DatasetElement \<Rightarrow> 'n rotated \<Rightarrow> error + 'n rotated" where
  "rotate_element [] e rotated = Inr rotated"
| "rotate_element (key # keys) e rotated =
     (case push_value key (get_field e key) rotated of
        Inl err \<Rightarrow> Inl err
      | Inr rotated' \<Rightarrow> rotate_element keys e rotated')"

text \<open>\<open>for (const e of elements)\<close>\<close>

fun rotate_elements ::
  "string list \<Rightarrow> 'n DatasetElement list \<Rightarrow> 'n rotated \<Rightarrow> error + 'n rotated" where
  "rotate_elements keys [] rotated = Inr rotated"
| "rotate_elements keys (e # elements) rotated =
     (case rotate_element keys e rotated of
        Inl err \<Rightarrow> Inl err
      | Inr rotated' \<Rightarrow> rotate_elements keys elements rotated')"

text \<open>\<open>typeof rotated[key][0] === 'string'\<close>\<close>

fun first_is_string :: "'n element_value list \<Rightarrow> bool" where
  "first_is_string (Text s # vs) = True"
| "first_is_string vs = False"

text \<open>
  The second \<open>keys.forEach\<close>, which fills \<open>result\<close>; \<open>n\<close> is
  \<open>elements.length\<close>. Reading \<open>.length\<close> of \<open>undefined\<close> would be a
  \<open>TypeError\<close>. The assignment \<open>result[key] = ...\<close> is \<open>set_property\<close>:
  for the key \<open>__proto__\<close> it sets the prototype of \<open>result\<close> and adds no key.
\<close>

fun fill_result ::
  "('n flat_value \<Rightarrow> 'n) \<Rightarrow> nat \<Rightarrow> 'n::zero rotated \<Rightarrow> string list \<Rightarrow> 'n DatasetBatch
     \<Rightarrow> error + 'n DatasetBatch" where
  "fill_result toFloat32 n rotated [] result = Inr result"
| "fill_result toFloat32 n rotated (key # keys) result =
     (case map_of rotated key of
        None \<Rightarrow> Inl TypeError
      | Some vs \<Rightarrow>
          if length vs \<noteq> n then Inl (BatchingFailedToGetValue key)
          else if first_is_string vs
          then fill_result toFloat32 n rotated keys (set_property key (StringArray vs) result)
          else (case batchConcat toFloat32 vs of
                  Inl err \<Rightarrow> Inl err
                | Inr t \<Rightarrow>
                    fill_result toFloat32 n rotated keys
                      (set_property key (BatchTensor t) result)))"

text \<open>
  Modelled from the spec: \<open>dispose\<close> is imported from \<open>globals\<close>, which is not among
  the sources; it releases the underlying resources of the record it is given. The model
  keeps the log of the records released so far, in order.
\<close>

definition dispose :: "'n DatasetElement \<Rightarrow> 'n DatasetElement list \<Rightarrow> 'n DatasetElement list" where
  "dispose e released = released @ [e]"

text \<open>
  \<open>makeDatasetBatch\<close> with the log of released records passed through. An error
  leaves the function at the \<open>throw\<close>, so nothing after it runs.
\<close>

definition makeDatasetBatch ::
  "('n flat_value \<Rightarrow> 'n) \<Rightarrow> 'n::zero DatasetElement list \<Rightarrow> 'n DatasetElement list
     \<Rightarrow> (error + 'n DatasetBatch) \<times> 'n DatasetElement list" where
  "makeDatasetBatch toFloat32 elements released =
     (case elements of
        [] \<Rightarrow> (Inl TypeError, released)
      | firstElement # _ \<Rightarrow>
          let keys = Object_keys firstElement in
          (case rotate_elements keys elements (init_rotated keys) of
             Inl err \<Rightarrow> (Inl err, released)
           | Inr rotated \<Rightarrow>
               (case fill_result toFloat32 (length elements) rotated keys empty_object of
                  Inl err \<Rightarrow> (Inl err, released)
                | Inr result \<Rightarrow>
                    (Inr result, foldl (\<lambda>rel e. dispose e rel) released elements))))"

section \<open>\<open>BatchDataset\<close>\<close>

text \<open>
  The underlying \<open>Dataset\<close> is taken as the finite sequence of records that its stream
  yields.
\<close>

record 'n BatchDataset =
  base :: "'n DatasetElement list"
  batchSize :: int
  smallLastBatch :: bool

text \<open>
  The constructor has an empty body; an omitted third argument (\<open>None\<close>) takes the
  default \<open>true\<close>.
\<close>

definition BatchDataset_constructor ::
  "'n DatasetElement list \<Rightarrow> int \<Rightarrow> bool option \<Rightarrow> error + 'n BatchDataset" where
  "BatchDataset_constructor b n small =
     Inr \<lparr>base = b, batchSize = n,
          smallLastBatch = (case small of None \<Rightarrow> True | Some s \<Rightarrow> s)\<rparr>"

text \<open>
  Modelled from the spec: \<open>DataStream.batch\<close> is defined in \<open>streams/data_stream\<close>,
  which is not among the sources. Following the spec's state machine, records are pulled
  one at a time into a buffer; when the buffer holds \<open>batchSize\<close> records it is emitted
  and emptied; when the upstream is exhausted, a non-empty buffer is emitted if
  \<open>smallLastBatch\<close> is set and discarded otherwise.
\<close>

fun batch_from :: "'a list \<Rightarrow> int \<Rightarrow> bool \<Rightarrow> 'a list \<Rightarrow> 'a list list" where
  "batch_from buffer n small [] = (if small \<and> buffer \<noteq> [] then [buffer] else [])"
| "batch_from buffer n small (x # upstream) =
     (if int (length (buffer @ [x])) = n
      then (buffer @ [x]) # batch_from [] n small upstream
      else batch_from (buffer @ [x]) n small upstream)"

definition batch :: "int \<Rightarrow> bool \<Rightarrow> 'a list \<Rightarrow> 'a list list" where
  "batch n small upstream = batch_from [] n small upstream"

text \<open>
  Modelled from the spec: \<open>DataStream.map\<close> is not among the sources either. The
  stream is pulled to its end; each pull applies the transform to the next window and
  yields its batch or the error it raised.
\<close>

fun map_stream :: "('a \<Rightarrow> 's \<Rightarrow> 'b \<times> 's) \<Rightarrow> 'a list \<Rightarrow> 's \<Rightarrow> 'b list \<times> 's" where
  "map_stream f [] s = ([], s)"
| "map_stream f (x # xs) s =
     (case f x s of (y, s') \<Rightarrow>
        (case map_stream f xs s' of (ys, s'') \<Rightarrow> (y # ys, s'')))"

definition getStream ::
  "('n flat_value \<Rightarrow> 'n) \<Rightarrow> 'n::zero BatchDataset \<Rightarrow> 'n DatasetElement list
     \<Rightarrow> (error + 'n DatasetBatch) list \<times> 'n DatasetElement list" where
  "getStream toFloat32 this released =
     (let batchesAsArrays = batch (batchSize this) (smallLastBatch this) (base this)
      in map_stream (makeDatasetBatch toFloat32) batchesAsArrays released)"

text \<open>The batches that a consumer receives: the pulls that did not raise.\<close>

definition emitted :: "(error + 'b) list \<Rightarrow> 'b list" where
  "emitted outcomes = [b. Inr b \<leftarrow> outcomes]"

section \<open>Auxiliary notions for the statements\<close>

text \<open>
  The invariant of the \<open>Tensor\<close> class: a tensor holds as many values as its shape
  says. Values of the other kinds satisfy it trivially.
\<close>

definition wf_value :: "'n element_value \<Rightarrow> bool" where
  "wf_value v = (case v of TensorValue t \<Rightarrow> length (dataSync t) = prod_list (shape t) | _ \<Rightarrow> True)"

text \<open>
  The shape and the flat data of a value, read off the value itself: a tensor has its
  shape and its buffer; an array of \<open>n\<close> numbers has shape \<open>[n]\<close> and its
  numbers; a number has no dimensions and is its own single entry, and so are, where the
  code meets them in a numeric field, a string and \<open>undefined\<close>.
\<close>

fun value_shape :: "'n element_value \<Rightarrow> nat list" where
  "value_shape (Scalar x) = []"
| "value_shape (NumericArray xs) = [length xs]"
| "value_shape (TensorValue t) = shape t"
| "value_shape (Text s) = []"
| "value_shape Undefined = []"

fun value_flat :: "'n element_value \<Rightarrow> 'n flat_value list" where
  "value_flat (Scalar x) = [Num x]"
| "value_flat (NumericArray xs) = map Num xs"
| "value_flat (TensorValue t) = map Num (dataSync t)"
| "value_flat (Text s) = [Str s]"
| "value_flat Undefined = [Undef]"

text \<open>
  For evaluating the functions on concrete records: a number type with the integers
  (the small ones used below are exactly representable in 32-bit floating point, so the
  conversion leaves them unchanged) and \<open>NaN\<close>, which is what \<open>undefined\<close>
  and a string that is not a numeral convert to.
\<close>

datatype js_number = Finite int | NaN

instantiation js_number :: zero
begin
definition zero_js_number :: js_number where "zero_js_number = Finite 0"
instance ..
end

definition sample_toFloat32 :: "js_number flat_value \<Rightarrow> js_number" where
  "sample_toFloat32 v = (case v of Num x \<Rightarrow> x | Str s \<Rightarrow> NaN | Undef \<Rightarrow> NaN)"

text \<open>Cutting a flat buffer back into \<open>b\<close> consecutive slices of length \<open>p\<close>.\<close>

definition split_slices :: "nat \<Rightarrow> nat \<Rightarrow> 'a list \<Rightarrow> 'a list list" where
  "split_slices b p buf = map (\<lambda>i. take p (drop (i * p) buf)) [0..<b]"

text \<open>
  The transposition written in closed form: each key with the sequence of that field's
  values across the elements, in element order.
\<close>

definition transposed :: "string list \<Rightarrow> 'n DatasetElement list \<Rightarrow> 'n rotated" where
  "transposed keys elements = map (\<lambda>key. (key, map (\<lambda>e. get_field e key) elements)) keys"

text \<open>
  What the second \<open>keys.forEach\<close> stores for one key, given the rotated values of
  that key, and the value that ends up in the result for a key.
\<close>

definition batch_field :: "('n flat_value \<Rightarrow> 'n) \<Rightarrow> 'n::zero element_value list \<Rightarrow> error + 'n batch_value" where
  "batch_field toFloat32 vs =
     (if first_is_string vs then Inr (StringArray vs)
      else (case batchConcat toFloat32 vs of Inl err \<Rightarrow> Inl err | Inr t \<Rightarrow> Inr (BatchTensor t)))"

definition field_outcome ::
  "('n flat_value \<Rightarrow> 'n) \<Rightarrow> 'n::zero rotated \<Rightarrow> string \<Rightarrow> 'n batch_value option" where
  "field_outcome cv rot k =
     (case map_of rot k of
        None \<Rightarrow> None
      | Some vs \<Rightarrow> (case batch_field cv vs of Inl err \<Rightarrow> None | Inr bv \<Rightarrow> Some bv))"

text \<open>A record all of whose tensors satisfy the invariant.\<close>

definition wf_element :: "'n DatasetElement \<Rightarrow> bool" where
  "wf_element e = (\<forall>v \<in> snd ` set e. wf_value v)"

section \<open>\<open>shapeAndValues\<close> on references\<close>

text \<open>
  Whether \<open>shapeAndValues\<close> returns a new array or the one it was given cannot be
  seen at the level of values. Here the arrays live in a store, a value refers to its array
  by address, and the function returns the address of the flat array. The array literal
  \<open>[array]\<close> of the last branch allocates a new array; the other two branches allocate
  nothing.
\<close>

type_synonym addr = nat

record 'n store =
  cells :: "addr \<Rightarrow> 'n flat_value list"
  allocated :: nat

text \<open>
  Modelled from the spec: the class \<open>Tensor\<close> is not among the sources; following the
  spec, \<open>array.dataSync()\<close> gives the tensor's flat buffer, whose address the tensor
  carries next to its shape.
\<close>

datatype 'n ref_value =
    RefUndefined
  | RefText string
  | RefScalar 'n
  | RefArray addr
  | RefTensor "nat list" addr

text \<open>The single entry of the array \<open>[array]\<close>.\<close>

fun primitive :: "'n ref_value \<Rightarrow> 'n flat_value" where
  "primitive (RefScalar x) = Num x"
| "primitive (RefText s) = Str s"
| "primitive v = Undef"

definition new_array :: "'n flat_value list \<Rightarrow> 'n store \<Rightarrow> addr \<times> 'n store" where
  "new_array xs st =
     (allocated st, st\<lparr>cells := (cells st)(allocated st := xs), allocated := Suc (allocated st)\<rparr>)"

fun shapeAndValues_store :: "'n store \<Rightarrow> 'n ref_value \<Rightarrow> (nat list \<times> addr) \<times> 'n store" where
  "shapeAndValues_store st (RefTensor s d) = ((s, d), st)"
| "shapeAndValues_store st (RefArray array) = (([length (cells st array)], array), st)"
| "shapeAndValues_store st v =
     (case new_array [primitive v] st of (values, st') \<Rightarrow> (([], values), st'))"

text \<open>A store for the evaluation: the array \<open>[1, 2]\<close> at address 0.\<close>

definition sample_store :: "js_number store" where
  "sample_store = \<lparr>cells = (\<lambda>p. [])(0 := [Num (Finite 1), Num (Finite 2)]), allocated = 1\<rparr>"

section \<open>Properties of \<open>shapeAndValues\<close>\<close>

text \<open>
  Claim C7, as stated, fails for a numeric array: the flat buffer returned for the array
  at address 0 is address 0 itself, an array that existed before the call, not a copy.
\<close>

theorem numeric_array_aliased_counterexample:
  "snd (fst (shapeAndValues_store sample_store (RefArray 0))) = 0
 \<and> 0 < allocated sample_store
 \<and> cells sample_store 0 = [Num (Finite 1), Num (Finite 2)]"
  by (simp add: sample_store_def)

text \<open>
  Claim C7, amended. \<open>shapeAndValues\<close> returns shape \<open>[]\<close> and the flat buffer
  \<open>[x]\<close>, a new array, for a scalar \<open>x\<close>; shape \<open>[len(xs)]\<close> and the
  source array itself (the same address, no copy) for a numeric array \<open>xs\<close>; shape
  \<open>s\<close> and the buffer \<open>b\<close> for a tensor; and it changes no array that existed
  before the call.
\<close>

theorem shapeAndValues_cases:
  assumes "cells st a = map Num xs" and "cells st d = map Num b"
  shows "shapeAndValues (Scalar x) = ([], [Num x])
       \<and> shapeAndValues (NumericArray xs) = ([length xs], map Num xs)
       \<and> shapeAndValues (TensorValue (Tensor s b)) = (s, map Num b)
       \<and> (\<exists>st'. shapeAndValues_store st (RefScalar x) = (([], allocated st), st')
                \<and> cells st' (allocated st) = [Num x])
       \<and> shapeAndValues_store st (RefArray a) = (([length xs], a), st)
       \<and> shapeAndValues_store st (RefTensor s d) = ((s, d), st)
       \<and> (\<forall>p < allocated st. cells (snd (shapeAndValues_store st v)) p = cells st p)"
  using assms by (cases v) (simp_all add: new_array_def)

theorem shapeAndValues_cases_witness:
  "shapeAndValues_store sample_store (RefArray 0) = (([2], 0), sample_store)
 \<and> cells (snd (shapeAndValues_store sample_store (RefScalar (Finite 7)))) 0
     = [Num (Finite 1), Num (Finite 2)]"
proof -
  have a: "cells sample_store 0 = map Num [Finite 1, Finite 2]"
    by (simp add: sample_store_def)
  have p: "0 < allocated sample_store"
    by (simp add: sample_store_def)
  from shapeAndValues_cases [OF a a, of "Finite 7" "[]" "RefScalar (Finite 7)"] p
  have "shapeAndValues_store sample_store (RefArray 0)
          = (([length [Finite 1, Finite 2]], 0), sample_store)"
    and "cells (snd (shapeAndValues_store sample_store (RefScalar (Finite 7)))) 0
          = cells sample_store 0"
    by blast+
  then show ?thesis by (simp add: a)
qed

section \<open>Properties of \<open>batchConcat\<close>\<close>

lemma length_values_wf:
  "wf_value v \<Longrightarrow> length (snd (shapeAndValues v)) = prod_list (fst (shapeAndValues v))"
  by (cases v) (simp_all add: wf_value_def)

lemma foldl_mult_prod_list: "foldl (*) (n::nat) xs = n * prod_list xs"
  by (induction xs arbitrary: n) (simp_all add: mult.assoc)

lemma batchConcat_loop_ok:
  assumes "\<forall>a \<in> set arrays. fst (shapeAndValues a) = es \<and> length (snd (shapeAndValues a)) = p"
    and "offset + length arrays * p \<le> length buf"
  shows "batchConcat_loop cv es arrays buf offset =
    Inr (take offset buf @ concat (map (\<lambda>a. map cv (snd (shapeAndValues a))) arrays)
          @ drop (offset + length arrays * p) buf)"
  using assms
proof (induction arrays arbitrary: buf offset)
  case Nil
  then show ?case by simp
next
  case (Cons a arrays)
  obtain sh vs where sv: "shapeAndValues a = (sh, vs)" by (cases "shapeAndValues a")
  from Cons.prems sv have sh: "sh = es" and len: "length vs = p" by auto
  let ?buf' = "take offset buf @ map cv vs @ drop (offset + p) buf"
  have fit: "offset + p \<le> length buf" using Cons.prems(2) by simp
  have set: "Float32Array_set buf (map cv vs) offset = Inr ?buf'"
    using fit len by (simp add: Float32Array_set_def)
  have len': "length ?buf' = length buf" using fit len by simp
  have IH: "batchConcat_loop cv es arrays ?buf' (offset + p) =
    Inr (take (offset + p) ?buf' @ concat (map (\<lambda>a. map cv (snd (shapeAndValues a))) arrays)
          @ drop (offset + p + length arrays * p) ?buf')"
    using Cons.prems fit len' by (intro Cons.IH) (simp_all add: add.assoc)
  have t: "take (offset + p) ?buf' = take offset buf @ map cv vs"
    using fit len by (simp add: min_def)
  have d: "drop (offset + p + length arrays * p) ?buf' = drop (offset + p + length arrays * p) buf"
    using fit len by (simp add: min_def add.commute add.left_commute)
  show ?case
    using sv sh len set IH t d by (simp add: arraysEqual_def add.assoc)
qed

lemma batchConcat_loop_mismatch:
  assumes "\<exists>a \<in> set arrays. fst (shapeAndValues a) \<noteq> es"
    and "\<forall>a \<in> set arrays. wf_value a"
    and "offset + length arrays * prod_list es \<le> length buf"
  shows "batchConcat_loop cv es arrays buf offset = Inl ElementsMustHaveSameShape"
  using assms
proof (induction arrays arbitrary: buf offset)
  case Nil
  then show ?case by simp
next
  case (Cons a arrays)
  obtain sh vs where sv: "shapeAndValues a = (sh, vs)" by (cases "shapeAndValues a")
  show ?case
  proof (cases "sh = es")
    case False
    then show ?thesis using sv by (simp add: arraysEqual_def)
  next
    case True
    have len: "length vs = prod_list es"
      using length_values_wf[of a] Cons.prems(2) sv True by simp
    let ?buf' = "take offset buf @ map cv vs @ drop (offset + prod_list es) buf"
    have fit: "offset + prod_list es \<le> length buf" using Cons.prems(3) by simp
    have set: "Float32Array_set buf (map cv vs) offset = Inr ?buf'"
      using fit len by (simp add: Float32Array_set_def)
    have len': "length ?buf' = length buf" using fit len by simp
    have ex: "\<exists>a \<in> set arrays. fst (shapeAndValues a) \<noteq> es"
      using Cons.prems(1) sv True by auto
    have "batchConcat_loop cv es arrays ?buf' (offset + prod_list es) = Inl ElementsMustHaveSameShape"
      using ex Cons.prems(2,3) len' by (intro Cons.IH) (simp_all add: add.assoc)
    then show ?thesis using sv True len set by (simp add: arraysEqual_def)
  qed
qed

lemma concat_slice:
  assumes "\<forall>x \<in> set xs. length (f x) = p" and "i < length xs"
  shows "take p (drop (i * p) (concat (map f xs))) = f (xs ! i)"
  using assms
proof (induction xs arbitrary: i)
  case Nil
  then show ?case by simp
next
  case (Cons x xs)
  show ?case
  proof (cases i)
    case 0
    then show ?thesis using Cons.prems by simp
  next
    case (Suc j)
    then show ?thesis using Cons.prems Cons.IH[of j] by simp
  qed
qed

lemma length_concat_uniform:
  "\<forall>x \<in> set xs. length (f x) = p \<Longrightarrow> length (concat (map f xs)) = length xs * p"
  by (induction xs) simp_all

lemma batchConcat_same_shape:
  assumes wf: "\<forall>a \<in> set arrays. wf_value a"
    and same: "\<forall>a \<in> set arrays. fst (shapeAndValues a) = fst (shapeAndValues (first_value arrays))"
  shows "batchConcat cv arrays =
    Inr (Tensor (length arrays # fst (shapeAndValues (first_value arrays)))
          (concat (map (\<lambda>a. map cv (snd (shapeAndValues a))) arrays)))"
proof -
  let ?es = "fst (shapeAndValues (first_value arrays))"
  let ?p = "prod_list ?es"
  let ?buf = "replicate (foldl (*) (length arrays) ?es) (0::'a)"
  have unif: "\<forall>a \<in> set arrays. fst (shapeAndValues a) = ?es \<and> length (snd (shapeAndValues a)) = ?p"
    using wf same length_values_wf by fastforce
  have len: "length ?buf = length arrays * ?p" by (simp add: foldl_mult_prod_list)
  have "batchConcat_loop cv ?es arrays ?buf 0 =
    Inr (take 0 ?buf @ concat (map (\<lambda>a. map cv (snd (shapeAndValues a))) arrays)
          @ drop (0 + length arrays * ?p) ?buf)"
    using unif len by (intro batchConcat_loop_ok) simp_all
  then have "batchConcat_loop cv ?es arrays ?buf 0 =
    Inr (concat (map (\<lambda>a. map cv (snd (shapeAndValues a))) arrays))"
    using len by simp
  then show ?thesis
    by (simp add: batchConcat_def split_beta Let_def)
qed

lemma batchConcat_mismatch:
  assumes wf: "\<forall>a \<in> set arrays. wf_value a"
    and diff: "\<exists>a \<in> set arrays. fst (shapeAndValues a) \<noteq> fst (shapeAndValues (first_value arrays))"
  shows "batchConcat cv arrays = Inl ElementsMustHaveSameShape"
proof -
  let ?es = "fst (shapeAndValues (first_value arrays))"
  let ?buf = "replicate (foldl (*) (length arrays) ?es) (0::'a)"
  have "batchConcat_loop cv ?es arrays ?buf 0 = Inl ElementsMustHaveSameShape"
    using wf diff by (intro batchConcat_loop_mismatch) (simp_all add: foldl_mult_prod_list)
  then show ?thesis
    by (simp add: batchConcat_def split_beta Let_def)
qed

lemma shapeAndValues_value: "shapeAndValues v = (value_shape v, value_flat v)"
  by (cases v) simp_all

lemma first_value_shape:
  "fst (shapeAndValues (first_value arrays)) = value_shape (first_value arrays)"
  by (simp add: shapeAndValues_value)

text \<open>
  Claim C4. In a field whose tensors satisfy the invariant of their class, if some record's
  value has a shape other than that of the first record's value then \<open>batchConcat\<close>
  fails with the error ``Elements must have the same shape to be batched''; otherwise it
  returns a tensor of shape \<open>[arrays.length, ...elementShape]\<close> in whose buffer the
  slice of length \<open>product(elementShape)\<close> at offset \<open>i * product(elementShape)\<close>
  holds the flat values of record \<open>i\<close> (the tensor's buffer, the array's numbers,
  the number itself), converted to 32-bit floats.
\<close>

theorem batchConcat_shape_check_and_offsets:
  assumes "\<forall>a \<in> set arrays. wf_value a"
  shows "((\<exists>a \<in> set arrays. value_shape a \<noteq> value_shape (first_value arrays))
            \<longrightarrow> batchConcat toFloat32 arrays = Inl ElementsMustHaveSameShape)
       \<and> ((\<forall>a \<in> set arrays. value_shape a = value_shape (first_value arrays))
            \<longrightarrow> (\<exists>resultVals.
                  batchConcat toFloat32 arrays =
                    Inr (Tensor (length arrays # value_shape (first_value arrays)) resultVals)
                \<and> (\<forall>i < length arrays.
                      take (prod_list (value_shape (first_value arrays)))
                        (drop (i * prod_list (value_shape (first_value arrays))) resultVals)
                      = map toFloat32 (value_flat (arrays ! i)))))"
proof (intro conjI impI)
  assume "\<exists>a \<in> set arrays. value_shape a \<noteq> value_shape (first_value arrays)"
  then have "\<exists>a \<in> set arrays.
      fst (shapeAndValues a) \<noteq> fst (shapeAndValues (first_value arrays))"
    by (simp add: shapeAndValues_value)
  with assms show "batchConcat toFloat32 arrays = Inl ElementsMustHaveSameShape"
    by (rule batchConcat_mismatch)
next
  let ?es = "value_shape (first_value arrays)"
  let ?f = "\<lambda>a. map toFloat32 (value_flat a)"
  assume same: "\<forall>a \<in> set arrays. value_shape a = ?es"
  then have same': "\<forall>a \<in> set arrays.
      fst (shapeAndValues a) = fst (shapeAndValues (first_value arrays))"
    by (simp add: shapeAndValues_value)
  have lens: "\<forall>a \<in> set arrays. length (?f a) = prod_list ?es"
    using assms same length_values_wf by (fastforce simp: shapeAndValues_value)
  have "\<forall>i < length arrays.
          take (prod_list ?es) (drop (i * prod_list ?es) (concat (map ?f arrays))) = ?f (arrays ! i)"
    using concat_slice[OF lens] by blast
  then show "\<exists>resultVals.
      batchConcat toFloat32 arrays = Inr (Tensor (length arrays # ?es) resultVals)
    \<and> (\<forall>i < length arrays.
          take (prod_list ?es) (drop (i * prod_list ?es) resultVals)
          = map toFloat32 (value_flat (arrays ! i)))"
    using batchConcat_same_shape[OF assms same', of toFloat32]
    by (simp add: shapeAndValues_value)
qed

theorem batchConcat_shape_check_and_offsets_witness:
  "batchConcat sample_toFloat32
     [TensorValue (Tensor [2] [Finite 1, Finite 2]),
      TensorValue (Tensor [3] [Finite 1, Finite 2, Finite 3])]
   = Inl ElementsMustHaveSameShape
 \<and> (\<exists>resultVals.
       batchConcat sample_toFloat32
         [TensorValue (Tensor [2] [Finite 1, Finite 2]), NumericArray [Finite 3, Finite 4]]
       = Inr (Tensor [2, 2] resultVals)
     \<and> take 2 resultVals = [Finite 1, Finite 2]
     \<and> take 2 (drop 2 resultVals) = [Finite 3, Finite 4])"
proof
  show "batchConcat sample_toFloat32
     [TensorValue (Tensor [2] [Finite 1, Finite 2]),
      TensorValue (Tensor [3] [Finite 1, Finite 2, Finite 3])]
   = Inl ElementsMustHaveSameShape"
    using batchConcat_shape_check_and_offsets
      [of "[TensorValue (Tensor [2] [Finite 1, Finite 2]),
            TensorValue (Tensor [3] [Finite 1, Finite 2, Finite 3])]"
          sample_toFloat32]
    by (simp add: wf_value_def first_value_def)
next
  let ?arrays = "[TensorValue (Tensor [2] [Finite 1, Finite 2]),
                  NumericArray [Finite 3, Finite 4]]"
  have wf: "\<forall>a \<in> set ?arrays. wf_value a"
    by (simp add: wf_value_def)
  have same: "\<forall>a \<in> set ?arrays. value_shape a = value_shape (first_value ?arrays)"
    by (simp add: first_value_def)
  from batchConcat_shape_check_and_offsets [OF wf, of sample_toFloat32] same
  obtain resultVals where
      r: "batchConcat sample_toFloat32 ?arrays =
            Inr (Tensor (length ?arrays # value_shape (first_value ?arrays)) resultVals)"
    and s: "\<forall>i < length ?arrays.
          take (prod_list (value_shape (first_value ?arrays)))
            (drop (i * prod_list (value_shape (first_value ?arrays))) resultVals)
          = map sample_toFloat32 (value_flat (?arrays ! i))"
    by blast
  from s [rule_format, of 0] have "take 2 resultVals = [Finite 1, Finite 2]"
    by (simp add: first_value_def sample_toFloat32_def numeral_2_eq_2)
  moreover
  from s [rule_format, of 1] have "take 2 (drop 2 resultVals) = [Finite 3, Finite 4]"
    by (simp add: first_value_def sample_toFloat32_def numeral_2_eq_2)
  moreover from r have "batchConcat sample_toFloat32 ?arrays = Inr (Tensor [2, 2] resultVals)"
    by (simp add: first_value_def)
  ultimately show "\<exists>resultVals.
       batchConcat sample_toFloat32 ?arrays = Inr (Tensor [2, 2] resultVals)
     \<and> take 2 resultVals = [Finite 1, Finite 2]
     \<and> take 2 (drop 2 resultVals) = [Finite 3, Finite 4]"
    by blast
qed

text \<open>
  Claim C6. For a non-empty window of values of one shape \<open>elementShape\<close> (tensors of
  that shape, arrays of that length, or numbers), \<open>batchConcat\<close> returns a tensor of
  shape \<open>[B, ...elementShape]\<close> with \<open>B * product(elementShape)\<close> values, and
  cutting its buffer into \<open>B\<close> slices of length \<open>product(elementShape)\<close> gives
  back, in record order, the records' own flat values (the tensor's buffer, the array's
  numbers, the number itself) as converted to 32-bit floats.
\<close>

theorem batchConcat_round_trip:
  assumes "\<forall>a \<in> set arrays. wf_value a"
    and "\<forall>a \<in> set arrays. value_shape a = elementShape"
    and "arrays \<noteq> []"
  shows "\<exists>t. batchConcat toFloat32 arrays = Inr t
       \<and> shape t = length arrays # elementShape
       \<and> length (dataSync t) = length arrays * prod_list elementShape
       \<and> split_slices (length arrays) (prod_list elementShape) (dataSync t)
           = map (\<lambda>a. map toFloat32 (value_flat a)) arrays"
proof -
  let ?f = "\<lambda>a. map toFloat32 (value_flat a)"
  from assms(3) obtain a0 rest where ar: "arrays = a0 # rest" by (cases arrays) auto
  then have es: "value_shape (first_value arrays) = elementShape"
    using assms(2) by (simp add: first_value_def)
  have same: "\<forall>a \<in> set arrays.
      fst (shapeAndValues a) = fst (shapeAndValues (first_value arrays))"
    using assms(2) es by (simp add: shapeAndValues_value)
  have lens: "\<forall>a \<in> set arrays. length (?f a) = prod_list elementShape"
    using assms(1,2) length_values_wf by (fastforce simp: shapeAndValues_value)
  have bc: "batchConcat toFloat32 arrays =
      Inr (Tensor (length arrays # elementShape) (concat (map ?f arrays)))"
    using batchConcat_same_shape[OF assms(1) same, of toFloat32] es
    by (simp add: shapeAndValues_value)
  have "split_slices (length arrays) (prod_list elementShape) (concat (map ?f arrays))
          = map ?f arrays"
    unfolding split_slices_def
    by (rule nth_equalityI) (simp_all add: concat_slice[OF lens])
  then show ?thesis
    using bc length_concat_uniform[OF lens] by simp
qed

theorem batchConcat_round_trip_witness:
  "\<exists>t. batchConcat sample_toFloat32
         [TensorValue (Tensor [2] [Finite 1, Finite 2]),
          TensorValue (Tensor [2] [Finite 3, Finite 4])] = Inr t
     \<and> shape t = [2, 2]
     \<and> split_slices 2 2 (dataSync t) = [[Finite 1, Finite 2], [Finite 3, Finite 4]]"
  using batchConcat_round_trip
    [of "[TensorValue (Tensor [2] [Finite 1, Finite 2]),
          TensorValue (Tensor [2] [Finite 3, Finite 4])]" "[2]"
        sample_toFloat32]
  by (auto simp add: wf_value_def sample_toFloat32_def numeral_2_eq_2)

section \<open>Properties of \<open>makeDatasetBatch\<close>\<close>

lemma map_of_init_rotated_aux:
  "map_of (foldl (\<lambda>rotated key. AList.update key [] rotated) acc keys) k =
     (if k \<in> set keys then Some [] else map_of acc k)"
  by (induction keys arbitrary: acc) (simp_all add: update_conv')

lemma map_of_init_rotated:
  "map_of (init_rotated keys) k = (if k \<in> set keys then Some [] else None)"
  by (simp add: init_rotated_def map_of_init_rotated_aux)

lemma rotate_element_ok:
  assumes "distinct ks" and "\<forall>k \<in> set ks. map_of rot k \<noteq> None"
  shows "\<exists>rot'. rotate_element ks e rot = Inr rot' \<and>
    (\<forall>k. map_of rot' k =
       (if k \<in> set ks then map_option (\<lambda>vs. vs @ [get_field e k]) (map_of rot k)
        else map_of rot k))"
  using assms
proof (induction ks arbitrary: rot)
  case Nil
  then show ?case by simp
next
  case (Cons key ks)
  from Cons.prems obtain vs where vs: "map_of rot key = Some vs" by auto
  let ?rot1 = "AList.update key (vs @ [get_field e key]) rot"
  have push: "push_value key (get_field e key) rot = Inr ?rot1"
    using vs by (simp add: push_value_def)
  have m1: "map_of ?rot1 = (map_of rot)(key \<mapsto> vs @ [get_field e key])"
    by (rule update_conv')
  have "\<forall>k \<in> set ks. map_of ?rot1 k \<noteq> None"
    using Cons.prems(2) by (simp add: m1)
  with Cons.IH[of ?rot1] Cons.prems(1)
  obtain rot' where r: "rotate_element ks e ?rot1 = Inr rot'"
    and m: "\<forall>k. map_of rot' k =
       (if k \<in> set ks then map_option (\<lambda>vs. vs @ [get_field e k]) (map_of ?rot1 k)
        else map_of ?rot1 k)"
    by auto
  have "\<forall>k. map_of rot' k =
       (if k \<in> set (key # ks) then map_option (\<lambda>vs. vs @ [get_field e k]) (map_of rot k)
        else map_of rot k)"
    using m Cons.prems(1) vs by (auto simp: m1)
  then show ?case using push r by simp
qed

lemma rotate_elements_ok:
  assumes "distinct keys"
    and "\<forall>k. map_of rot k = (if k \<in> set keys then Some (f k) else None)"
  shows "\<exists>rot'. rotate_elements keys elements rot = Inr rot' \<and>
    (\<forall>k. map_of rot' k =
       (if k \<in> set keys then Some (f k @ map (\<lambda>e. get_field e k) elements) else None))"
  using assms(2)
proof (induction elements arbitrary: rot f)
  case Nil
  then show ?case by simp
next
  case (Cons e elements)
  have "\<forall>k \<in> set keys. map_of rot k \<noteq> None" using Cons.prems by simp
  from rotate_element_ok[OF assms(1) this, of e]
  obtain rot1 where r1: "rotate_element keys e rot = Inr rot1"
    and m1: "\<forall>k. map_of rot1 k =
       (if k \<in> set keys then map_option (\<lambda>vs. vs @ [get_field e k]) (map_of rot k)
        else map_of rot k)"
    by blast
  have "\<forall>k. map_of rot1 k = (if k \<in> set keys then Some (f k @ [get_field e k]) else None)"
    using m1 Cons.prems by simp
  from Cons.IH[OF this]
  obtain rot' where r: "rotate_elements keys elements rot1 = Inr rot'"
    and m: "\<forall>k. map_of rot' k =
       (if k \<in> set keys
        then Some ((f k @ [get_field e k]) @ map (\<lambda>e. get_field e k) elements) else None)"
    by blast
  show ?case using r1 r m by simp
qed

lemma map_of_transposed:
  "map_of (transposed keys elements) k =
     (if k \<in> set keys then Some (map (\<lambda>e. get_field e k) elements) else None)"
  unfolding transposed_def by (induction keys) simp_all

lemma rotate_elements_init:
  assumes "distinct keys"
  shows "\<exists>rot. rotate_elements keys elements (init_rotated keys) = Inr rot \<and>
    (\<forall>k. map_of rot k = map_of (transposed keys elements) k)"
proof -
  have "\<forall>k. map_of (init_rotated keys) k = (if k \<in> set keys then Some ([]::'a element_value list) else None)"
    by (simp add: map_of_init_rotated)
  from rotate_elements_ok[OF assms this, of elements]
  show ?thesis by (auto simp add: map_of_transposed)
qed

lemma fill_result_cong:
  "\<forall>k \<in> set ks. map_of rot k = map_of rot' k \<Longrightarrow>
     fill_result cv n rot ks res = fill_result cv n rot' ks res"
  by (induction ks arbitrary: res) (simp_all split: option.splits sum.splits)

lemma fill_result_step:
  "fill_result cv n rot (key # ks) res =
     (case map_of rot key of
        None \<Rightarrow> Inl TypeError
      | Some vs \<Rightarrow>
          if length vs \<noteq> n then Inl (BatchingFailedToGetValue key)
          else (case batch_field cv vs of
                  Inl err \<Rightarrow> Inl err
                | Inr bv \<Rightarrow> fill_result cv n rot ks (set_property key bv res)))"
  by (simp add: batch_field_def split: option.splits sum.splits)

lemma fill_result_ConsE:
  assumes "fill_result cv n rot (key # ks) res = Inr res'"
  obtains vs bv where "map_of rot key = Some vs" and "length vs = n"
    and "batch_field cv vs = Inr bv"
    and "fill_result cv n rot ks (set_property key bv res) = Inr res'"
  using assms unfolding fill_result_step
  by (auto split: option.splits sum.splits if_splits)

lemma get_property_set_property:
  "get_property (set_property key v obj) = (get_property obj)(key \<mapsto> v)"
  by (auto simp add: get_property_def set_property_def update_conv' fun_eq_iff)



lemma fill_result_Inr:
  assumes "fill_result cv n rot ks res = Inr res'"
  shows "(\<forall>k. get_property res' k = (if k \<in> set ks then field_outcome cv rot k else get_property res k))
       \<and> (\<forall>k \<in> set ks. \<exists>vs bv. map_of rot k = Some vs \<and> length vs = n
                \<and> batch_field cv vs = Inr bv)"
  using assms
proof (induction ks arbitrary: res)
  case Nil
  then show ?case by simp
next
  case (Cons key ks)
  from Cons.prems obtain vs bv where vs: "map_of rot key = Some vs" and len: "length vs = n"
    and bf: "batch_field cv vs = Inr bv"
    and rec: "fill_result cv n rot ks (set_property key bv res) = Inr res'"
    by (rule fill_result_ConsE)
  have fo: "field_outcome cv rot key = Some bv"
    using vs bf by (simp add: field_outcome_def)
  from Cons.IH[OF rec]
  have m: "\<forall>k. get_property res' k =
        (if k \<in> set ks then field_outcome cv rot k else get_property (set_property key bv res) k)"
    and ex: "\<forall>k \<in> set ks. \<exists>vs bv. map_of rot k = Some vs \<and> length vs = n
                \<and> batch_field cv vs = Inr bv"
    by blast+
  have "\<forall>k. get_property res' k =
      (if k \<in> set (key # ks) then field_outcome cv rot k else get_property res k)"
    using m fo by (simp add: get_property_set_property)
  moreover have "\<forall>k \<in> set (key # ks). \<exists>vs bv. map_of rot k = Some vs \<and> length vs = n
                \<and> batch_field cv vs = Inr bv"
    using ex vs len bf by simp
  ultimately show ?case by blast
qed

lemma fill_result_Inl:
  assumes "fill_result cv n rot ks res = Inl err"
  shows "\<exists>k \<in> set ks.
      (map_of rot k = None \<and> err = TypeError)
    \<or> (\<exists>vs. map_of rot k = Some vs \<and>
          (length vs \<noteq> n \<and> err = BatchingFailedToGetValue k
         \<or> length vs = n \<and> batch_field cv vs = Inl err))"
  using assms
proof (induction ks arbitrary: res)
  case Nil
  then show ?case by simp
next
  case (Cons key ks)
  show ?case
  proof (cases "\<exists>vs bv. map_of rot key = Some vs \<and> length vs = n \<and> batch_field cv vs = Inr bv")
    case True
    then obtain vs bv where "map_of rot key = Some vs" "length vs = n" "batch_field cv vs = Inr bv"
      by blast
    with Cons.prems have "fill_result cv n rot ks (set_property key bv res) = Inl err"
      by (simp add: fill_result_step del: fill_result.simps)
    from Cons.IH[OF this] show ?thesis by auto
  next
    case False
    with Cons.prems show ?thesis
      unfolding fill_result_step
      by (cases "map_of rot key"; cases "batch_field cv (the (map_of rot key))")
         (auto split: if_splits)
  qed
qed

lemma distinct_Object_keys: "distinct (Object_keys obj)"
  by (simp add: Object_keys_def)

lemma set_Object_keys: "set (Object_keys obj) = fst ` set obj"
  by (simp add: Object_keys_def)

lemma foldl_dispose: "foldl (\<lambda>rel e. dispose e rel) released elements = released @ elements"
  by (induction elements arbitrary: released) (simp_all add: dispose_def)

lemma makeDatasetBatch_outcome:
  "fst (makeDatasetBatch cv (first # rest) released) =
     fill_result cv (Suc (length rest)) (transposed (Object_keys first) (first # rest))
       (Object_keys first) empty_object"
proof -
  let ?keys = "Object_keys first"
  from rotate_elements_init[OF distinct_Object_keys, of first "first # rest"]
  obtain rot where r: "rotate_elements ?keys (first # rest) (init_rotated ?keys) = Inr rot"
    and m: "\<forall>k. map_of rot k = map_of (transposed ?keys (first # rest)) k"
    by blast
  have "fill_result cv (Suc (length rest)) rot ?keys empty_object =
        fill_result cv (Suc (length rest)) (transposed ?keys (first # rest)) ?keys empty_object"
    using m by (intro fill_result_cong) simp
  then show ?thesis
    using r by (simp add: makeDatasetBatch_def Let_def del: rotate_elements.simps split: sum.splits)
qed

lemma makeDatasetBatch_released:
  "snd (makeDatasetBatch cv elements released) =
     (case fst (makeDatasetBatch cv elements released) of
        Inl err \<Rightarrow> released
      | Inr result \<Rightarrow> released @ elements)"
  by (cases elements)
     (auto simp add: makeDatasetBatch_def Let_def foldl_dispose
           simp del: rotate_elements.simps split: sum.splits)

lemma batchConcat_loop_errors:
  "batchConcat_loop cv es arrays buf offset = Inl err \<Longrightarrow>
     err = ElementsMustHaveSameShape \<or> err = RangeError"
proof (induction arrays arbitrary: buf offset)
  case Nil
  then show ?case by simp
next
  case (Cons a arrays)
  then show ?case
    by (auto simp: Float32Array_set_def split: prod.splits if_splits sum.splits)
qed

lemma batchConcat_errors:
  "batchConcat cv arrays = Inl err \<Longrightarrow> err = ElementsMustHaveSameShape \<or> err = RangeError"
  using batchConcat_loop_errors
  by (fastforce simp: batchConcat_def Let_def split_beta split: sum.splits)

lemma batch_field_errors:
  "batch_field cv vs = Inl err \<Longrightarrow> err = ElementsMustHaveSameShape \<or> err = RangeError"
  using batchConcat_errors[of cv vs]
  by (auto simp: batch_field_def split: if_splits sum.splits)

text \<open>The definitions to unfold when a function is evaluated on concrete records.\<close>

lemmas eval_defs =
  makeDatasetBatch_def Object_keys_def init_rotated_def push_value_def get_field_def
  set_property_def empty_object_def
  batchConcat_def first_value_def Float32Array_set_def arraysEqual_def dispose_def
  sample_toFloat32_def zero_js_number_def Let_def

text \<open>
  Claim C9. For a non-empty list of records, the transposition loop ends without error and
  leaves, for every key of the first record, a sequence of values whose length is the
  number of records; hence \<open>makeDatasetBatch\<close> never throws the error of its sanity
  check, ``Batching failed to get a value for each element''.
\<close>

theorem rotated_lengths_match:
  "\<exists>rotated.
      rotate_elements (Object_keys firstElement) (firstElement # rest)
        (init_rotated (Object_keys firstElement)) = Inr rotated
    \<and> (\<forall>key \<in> set (Object_keys firstElement).
          \<exists>vs. map_of rotated key = Some vs \<and> length vs = length (firstElement # rest))
    \<and> (\<forall>key. fst (makeDatasetBatch toFloat32 (firstElement # rest) released)
                 \<noteq> Inl (BatchingFailedToGetValue key))"
proof -
  let ?keys = "Object_keys firstElement"
  let ?els = "firstElement # rest"
  from rotate_elements_init[OF distinct_Object_keys, of firstElement ?els]
  obtain rot where r: "rotate_elements ?keys ?els (init_rotated ?keys) = Inr rot"
    and m: "\<forall>k. map_of rot k = map_of (transposed ?keys ?els) k"
    by blast
  have len: "\<forall>key \<in> set ?keys. \<exists>vs. map_of rot key = Some vs \<and> length vs = length ?els"
    using m by (simp add: map_of_transposed)
  have "fst (makeDatasetBatch toFloat32 ?els released) \<noteq> Inl (BatchingFailedToGetValue key)" for key
  proof
    assume "fst (makeDatasetBatch toFloat32 ?els released) = Inl (BatchingFailedToGetValue key)"
    then have "fill_result toFloat32 (Suc (length rest)) (transposed ?keys ?els) ?keys empty_object
                = Inl (BatchingFailedToGetValue key)"
      by (simp add: makeDatasetBatch_outcome)
    from fill_result_Inl[OF this] show False
      using batch_field_errors by (fastforce simp: map_of_transposed)
  qed
  with r len show ?thesis by blast
qed

theorem rotated_lengths_match_witness:
  "\<exists>rotated.
      rotate_elements [''a'', ''b'']
        [[(''a'', Scalar (Finite 1)), (''b'', Text ''x'')], [(''b'', Text ''y'')]]
        (init_rotated [''a'', ''b'']) = Inr rotated
    \<and> (\<exists>vs. map_of rotated ''a'' = Some vs \<and> length vs = 2)"
proof -
  let ?first = "[(''a'', Scalar (Finite 1)), (''b'', Text ''x'')]"
  let ?rest = "[[(''b'', Text ''y'')]]"
  have k: "Object_keys ?first = [''a'', ''b'']"
    by (simp add: Object_keys_def)
  from rotated_lengths_match [of ?first ?rest sample_toFloat32 "[]"]
  obtain rotated where
      r: "rotate_elements (Object_keys ?first) (?first # ?rest) (init_rotated (Object_keys ?first))
            = Inr rotated"
    and l: "\<forall>key \<in> set (Object_keys ?first).
              \<exists>vs. map_of rotated key = Some vs \<and> length vs = length (?first # ?rest)"
    by blast
  from l have "\<exists>vs. map_of rotated ''a'' = Some vs \<and> length vs = 2"
    unfolding k by (simp add: numeral_2_eq_2)
  with r [unfolded k] show ?thesis by blast
qed

text \<open>
  Claim C2. The claim asks that the records of a window be released also when its assembly
  fails. On the window \<open>[{a:[1,2]}, {a:[1,2,3]}]\<close> the assembly throws the
  same-shape error from inside the second \<open>keys.forEach\<close>, so
  \<open>elements.forEach(dispose)\<close> is never reached: the log of released records is
  still empty when the error leaves \<open>makeDatasetBatch\<close>.
\<close>

theorem dispose_skipped_on_error:
  "makeDatasetBatch sample_toFloat32
     [[(''a'', NumericArray [Finite 1, Finite 2])],
      [(''a'', NumericArray [Finite 1, Finite 2, Finite 3])]] []
   = (Inl ElementsMustHaveSameShape, [])"
  by (simp add: eval_defs)







lemma first_is_string_shape: "first_is_string (v # vs) \<Longrightarrow> fst (shapeAndValues v) = []"
  by (cases v) simp_all

lemma key_present:
  "get_field first key \<noteq> Undefined \<Longrightarrow> key \<in> set (Object_keys first)"
  by (auto simp: get_field_def set_Object_keys split: option.splits dest!: map_of_SomeD
        intro: rev_image_eqI)



lemma batchConcat_loop_mismatch_fails:
  "\<exists>a \<in> set arrays. fst (shapeAndValues a) \<noteq> es \<Longrightarrow>
     \<exists>err. batchConcat_loop cv es arrays buf offset = Inl err"
proof (induction arrays arbitrary: buf offset)
  case Nil
  then show ?case by simp
next
  case (Cons a arrays)
  show ?case
  proof (cases "fst (shapeAndValues a) = es")
    case False
    then show ?thesis by (simp add: arraysEqual_def split_beta)
  next
    case True
    with Cons.prems have "\<exists>a \<in> set arrays. fst (shapeAndValues a) \<noteq> es" by simp
    from Cons.IH[OF this] True show ?thesis
      by (simp add: arraysEqual_def split_beta split: sum.splits)
  qed
qed

lemma batchConcat_mismatch_fails:
  assumes "\<exists>a \<in> set arrays. fst (shapeAndValues a) \<noteq> fst (shapeAndValues (first_value arrays))"
  shows "\<exists>err. batchConcat cv arrays = Inl err"
proof -
  let ?es = "fst (shapeAndValues (first_value arrays))"
  let ?buf = "replicate (foldl (*) (length arrays) ?es) (0::'a)"
  from batchConcat_loop_mismatch_fails[OF assms, of cv ?buf 0]
  obtain err where "batchConcat_loop cv ?es arrays ?buf 0 = Inl err" by blast
  then show ?thesis
    by (simp add: batchConcat_def split_beta Let_def)
qed

lemma batchConcat_wf_errors:
  assumes "\<forall>a \<in> set arrays. wf_value a" and "batchConcat cv arrays = Inl err"
  shows "err = ElementsMustHaveSameShape"
proof (cases "\<forall>a \<in> set arrays. fst (shapeAndValues a) = fst (shapeAndValues (first_value arrays))")
  case True
  from batchConcat_same_shape[OF assms(1) True, of cv] assms(2) show ?thesis by simp
next
  case False
  then have "\<exists>a \<in> set arrays. fst (shapeAndValues a) \<noteq> fst (shapeAndValues (first_value arrays))"
    by blast
  from batchConcat_mismatch[OF assms(1) this, of cv] assms(2) show ?thesis by simp
qed

lemma wf_get_field: "wf_element e \<Longrightarrow> wf_value (get_field e key)"
  by (auto simp: wf_element_def get_field_def wf_value_def split: option.splits
           dest!: map_of_SomeD)

text \<open>
  Claim C3, as stated, fails: on the window \<open>[{a:1}, {}]\<close> the second record lacks
  the key \<open>a\<close> of the first, and \<open>makeDatasetBatch\<close> returns a batch in which
  the missing value has been read as \<open>undefined\<close> and stored as \<open>NaN\<close>.
\<close>

theorem missing_key_padded_counterexample:
  "makeDatasetBatch sample_toFloat32 [[(''a'', Scalar (Finite 1))], []] []
   = (Inr \<lparr>own_properties = [(''a'', BatchTensor (Tensor [2] [Finite 1, NaN]))],
           prototype_slot = None\<rparr>,
      [[(''a'', Scalar (Finite 1))], []])"
  by (simp add: eval_defs)

text \<open>
  Claim C3, amended. In a non-empty window, if a record after the first lacks a key whose
  value in the first record has a non-empty shape (a numeric array, or a tensor of rank at
  least one), then \<open>makeDatasetBatch\<close> fails, produces no batch and releases no
  record; when the tensors of the window satisfy their invariant the error is the
  same-shape error (the missing value is read as \<open>undefined\<close>, of shape \<open>[]\<close>).
\<close>

theorem missing_key_fails_for_shaped_field:
  assumes "fst (shapeAndValues (get_field firstElement key)) \<noteq> []"
    and "e \<in> set rest" and "map_of e key = None"
  shows "(\<exists>err. makeDatasetBatch toFloat32 (firstElement # rest) released = (Inl err, released))
       \<and> ((\<forall>e' \<in> set (firstElement # rest). wf_element e')
            \<longrightarrow> makeDatasetBatch toFloat32 (firstElement # rest) released
                  = (Inl ElementsMustHaveSameShape, released))"
proof -
  let ?keys = "Object_keys firstElement"
  let ?els = "firstElement # rest"
  let ?col = "\<lambda>k. map (\<lambda>e. get_field e k) ?els"
  let ?out = "fst (makeDatasetBatch toFloat32 ?els released)"
  have fr: "?out = fill_result toFloat32 (Suc (length rest)) (transposed ?keys ?els) ?keys empty_object"
    by (rule makeDatasetBatch_outcome)
  have k: "key \<in> set ?keys"
    using assms(1) by (intro key_present) auto
  have nostr: "\<not> first_is_string (?col key)"
    using assms(1) first_is_string_shape[of "get_field firstElement key"] by auto
  have "get_field e key = Undefined"
    using assms(3) by (simp add: get_field_def)
  then have "\<exists>a \<in> set (?col key).
      fst (shapeAndValues a) \<noteq> fst (shapeAndValues (first_value (?col key)))"
    using assms(1,2) by (auto simp: first_value_def intro!: bexI[of _ e])
  from batchConcat_mismatch_fails[OF this, of toFloat32]
  obtain err0 where "batchConcat toFloat32 (?col key) = Inl err0" by blast
  then have bf: "batch_field toFloat32 (?col key) = Inl err0"
    using nostr by (simp add: batch_field_def)
  have notInr: "?out \<noteq> Inr result" for result
  proof
    assume "?out = Inr result"
    then have "fill_result toFloat32 (Suc (length rest)) (transposed ?keys ?els) ?keys empty_object = Inr result"
      by (simp add: fr)
    from fill_result_Inr[OF this] k bf show False
      by (auto simp: map_of_transposed)
  qed
  then obtain err where err: "?out = Inl err"
    by (cases ?out) auto
  have rel: "snd (makeDatasetBatch toFloat32 ?els released) = released"
    using err by (simp add: makeDatasetBatch_released)
  have part1: "makeDatasetBatch toFloat32 ?els released = (Inl err, released)"
    using err rel by (simp add: prod_eq_iff)
  have "err = ElementsMustHaveSameShape" if wf: "\<forall>e' \<in> set ?els. wf_element e'"
  proof -
    from err have "fill_result toFloat32 (Suc (length rest)) (transposed ?keys ?els) ?keys empty_object = Inl err"
      by (simp add: fr)
    from fill_result_Inl[OF this]
    obtain k' where "batch_field toFloat32 (?col k') = Inl err"
      by (auto simp: map_of_transposed)
    then have bc: "batchConcat toFloat32 (?col k') = Inl err"
      by (auto simp: batch_field_def split: if_splits sum.splits)
    have "\<forall>a \<in> set (?col k'). wf_value a"
      using wf wf_get_field by auto
    from batchConcat_wf_errors[OF this bc] show ?thesis .
  qed
  with part1 show ?thesis by auto
qed

theorem missing_key_fails_for_shaped_field_witness:
  "makeDatasetBatch sample_toFloat32
     [[(''a'', NumericArray [Finite 1, Finite 2])], [(''b'', Scalar (Finite 3))]] []
   = (Inl ElementsMustHaveSameShape, [])"
proof -
  let ?first = "[(''a'', NumericArray [Finite 1, Finite 2])]"
  let ?e = "[(''b'', Scalar (Finite 3))]"
  have s: "fst (shapeAndValues (get_field ?first ''a'')) \<noteq> []"
    by (simp add: get_field_def)
  have m: "?e \<in> set [?e]" "map_of ?e ''a'' = None"
    by simp_all
  have wf: "\<forall>e' \<in> set (?first # [?e]). wf_element e'"
    by (simp add: wf_element_def wf_value_def)
  from missing_key_fails_for_shaped_field [OF s m, of sample_toFloat32 "[]"] wf
  show ?thesis by blast
qed

section \<open>Properties of \<open>BatchDataset\<close>\<close>

lemma batch_from_lengths:
  assumes "0 < n" and "length buf < n"
  shows "map length (batch_from buf (int n) small xs) =
     replicate ((length buf + length xs) div n) n
     @ (if small \<and> (length buf + length xs) mod n \<noteq> 0
        then [(length buf + length xs) mod n] else [])"
  using assms(2)
proof (induction xs arbitrary: buf)
  case Nil
  then show ?case by auto
next
  case (Cons x xs)
  show ?case
  proof (cases "Suc (length buf) = n")
    case True
    have tot: "length buf + length (x # xs) = length xs + n"
      using True by simp
    have d: "(length xs + n) div n = Suc (length xs div n)"
      using assms(1) by simp
    have m: "(length xs + n) mod n = length xs mod n"
      by simp
    have "map length (batch_from [] (int n) small xs) =
       replicate (length xs div n) n
       @ (if small \<and> length xs mod n \<noteq> 0 then [length xs mod n] else [])"
      using Cons.IH[of "[]"] assms(1) by simp
    then show ?thesis
      using True unfolding tot d m by simp
  next
    case False
    with Cons.prems have lt: "length (buf @ [x]) < n" by simp
    have ne: "int (length (buf @ [x])) \<noteq> int n" using False by simp
    from Cons.IH[OF lt] ne show ?thesis by simp
  qed
qed

lemma batch_from_concat:
  assumes "0 < n" and "length buf < n"
  shows "concat (batch_from buf (int n) small xs) =
     (if small then buf @ xs else take (((length buf + length xs) div n) * n) (buf @ xs))"
  using assms(2)
proof (induction xs arbitrary: buf)
  case Nil
  then show ?case by auto
next
  case (Cons x xs)
  show ?case
  proof (cases "Suc (length buf) = n")
    case True
    have tot: "length buf + length (x # xs) = length xs + n"
      using True by simp
    have d: "(length xs + n) div n = Suc (length xs div n)"
      using assms(1) by simp
    have "concat (batch_from [] (int n) small xs) =
       (if small then xs else take ((length xs div n) * n) xs)"
      using Cons.IH[of "[]"] assms(1) by simp
    then show ?thesis
      using True unfolding tot d by auto
  next
    case False
    with Cons.prems have lt: "length (buf @ [x]) < n" by simp
    have ne: "int (length (buf @ [x])) \<noteq> int n" using False by simp
    from Cons.IH[OF lt] ne show ?thesis by simp
  qed
qed

lemma ceiling_nat_div:
  assumes "0 < n"
  shows "\<lceil>real L / real n\<rceil> = int (L div n + (if L mod n = 0 then 0 else 1))"
proof -
  have "\<lceil>real L / real n\<rceil> = \<lceil>(of_int (int L) :: real) / of_int (int n)\<rceil>" by simp
  also have "\<dots> = - (- int L div int n)" by (rule ceiling_divide_eq_div)
  also have "\<dots> = (if int L mod int n = 0 then int L div int n else int L div int n + 1)"
    using assms by (simp add: zdiv_zminus1_eq_if)
  also have "\<dots> = int (L div n + (if L mod n = 0 then 0 else 1))"
  proof -
    have "int L div int n = int (L div n)" by (simp only: zdiv_int)
    moreover have "int L mod int n = int (L mod n)" by (simp only: zmod_int)
    ultimately show ?thesis by (simp only: of_nat_eq_0_iff of_nat_add of_nat_1 of_nat_0 split: if_splits) simp
  qed
  finally show ?thesis .
qed

lemma length_map_stream: "length (fst (map_stream f xs s)) = length xs"
  by (induction xs arbitrary: s) (simp_all add: split_beta)

lemma makeDatasetBatch_outcome_released:
  "fst (makeDatasetBatch cv elements released) = fst (makeDatasetBatch cv elements released')"
  by (cases elements) (simp_all add: makeDatasetBatch_outcome, simp add: makeDatasetBatch_def)

lemma map_stream_makeDatasetBatch:
  "fst (map_stream (makeDatasetBatch cv) windows released)
     = map (\<lambda>w. fst (makeDatasetBatch cv w [])) windows"
proof (induction windows arbitrary: released)
  case Nil
  then show ?case by simp
next
  case (Cons w windows)
  have "fst (makeDatasetBatch cv w released) = fst (makeDatasetBatch cv w [])"
    by (rule makeDatasetBatch_outcome_released)
  with Cons.IH show ?case by (simp add: split_beta)
qed

lemma length_emitted_map:
  "length (emitted (map f windows)) = length [w \<leftarrow> windows. \<not> isl (f w)]"
  unfolding emitted_def
  by (induction windows) (auto split: sum.splits)

lemmas stream_defs = getStream_def batch_def emitted_def

text \<open>
  Claim C1, amended. For a positive \<open>batchSize\<close> \<open>B\<close> and an upstream sequence
  of \<open>L\<close> records, the stage forms \<open>ceil(L/B)\<close> windows when
  \<open>smallLastBatch\<close> is set and \<open>floor(L/B)\<close> otherwise: \<open>L div B\<close> windows
  of \<open>B\<close> records, followed, when \<open>smallLastBatch\<close> is set and
  \<open>L mod B\<close> is not zero, by one window of \<open>L mod B\<close> records. The windows hold
  the records in order, all of them when \<open>smallLastBatch\<close> is set and all but the
  remainder of fewer than \<open>B\<close> records otherwise. The pull outcomes are, window by
  window and in order, what \<open>makeDatasetBatch\<close> gives for the window: its batch when
  the assembly succeeds, its error otherwise. So the number of batches emitted is the
  number of windows that assemble, and it is the number of windows when none fails.
\<close>

theorem getStream_window_count:
  assumes "0 < batchSize this"
  shows "fst (getStream toFloat32 this released)
           = map (\<lambda>w. fst (makeDatasetBatch toFloat32 w []))
               (batch (batchSize this) (smallLastBatch this) (base this))
       \<and> int (length (batch (batchSize this) (smallLastBatch this) (base this)))
           = (if smallLastBatch this
              then \<lceil>real (length (base this)) / real_of_int (batchSize this)\<rceil>
              else \<lfloor>real (length (base this)) / real_of_int (batchSize this)\<rfloor>)
       \<and> map length (batch (batchSize this) (smallLastBatch this) (base this))
           = replicate (length (base this) div nat (batchSize this)) (nat (batchSize this))
             @ (if smallLastBatch this \<and> length (base this) mod nat (batchSize this) \<noteq> 0
                then [length (base this) mod nat (batchSize this)] else [])
       \<and> concat (batch (batchSize this) (smallLastBatch this) (base this))
           = (if smallLastBatch this then base this
              else take (length (base this) div nat (batchSize this) * nat (batchSize this))
                     (base this))
       \<and> length (emitted (fst (getStream toFloat32 this released)))
           = length [w \<leftarrow> batch (batchSize this) (smallLastBatch this) (base this).
                      \<not> isl (fst (makeDatasetBatch toFloat32 w []))]
       \<and> ((\<forall>w \<in> set (batch (batchSize this) (smallLastBatch this) (base this)).
               \<not> isl (fst (makeDatasetBatch toFloat32 w [])))
            \<longrightarrow> length (emitted (fst (getStream toFloat32 this released)))
                = length (batch (batchSize this) (smallLastBatch this) (base this)))"
proof -
  define n where "n = nat (batchSize this)"
  define L where "L = length (base this)"
  define small where "small = smallLastBatch this"
  have n: "batchSize this = int n" "0 < n"
    using assms by (simp_all add: n_def)
  let ?windows = "batch (int n) small (base this)"
  let ?outcomes = "fst (getStream toFloat32 this released)"
  let ?ok = "\<lambda>w. \<not> isl (fst (makeDatasetBatch toFloat32 w []))"
  have lens: "map length ?windows =
      replicate (L div n) n @ (if small \<and> L mod n \<noteq> 0 then [L mod n] else [])"
    using batch_from_lengths[OF n(2), of "[]" small "base this"] n(2)
    by (simp add: batch_def L_def)
  have "length ?windows = length (map length ?windows)" by simp
  also have "\<dots> = L div n + (if small \<and> L mod n \<noteq> 0 then 1 else 0)"
    unfolding lens by simp
  finally have count: "length ?windows = L div n + (if small \<and> L mod n \<noteq> 0 then 1 else 0)" .
  have c1: "int (length ?windows) =
      (if small then \<lceil>real L / real_of_int (int n)\<rceil> else \<lfloor>real L / real_of_int (int n)\<rfloor>)"
    using count ceiling_nat_div[OF n(2), of L] floor_divide_of_nat_eq[of L n, where ?'a = real]
    by simp
  have c2: "concat ?windows = (if small then base this else take (L div n * n) (base this))"
    using batch_from_concat[OF n(2), of "[]" small "base this"] n(2)
    by (simp add: batch_def L_def)
  have c0: "?outcomes = map (\<lambda>w. fst (makeDatasetBatch toFloat32 w [])) ?windows"
    by (simp add: getStream_def n(1) small_def map_stream_makeDatasetBatch)
  have c3: "length (emitted ?outcomes) = length (filter ?ok ?windows)"
    unfolding c0 by (rule length_emitted_map)
  have c4: "(\<forall>w \<in> set ?windows. ?ok w) \<longrightarrow> length (emitted ?outcomes) = length ?windows"
    unfolding c3 by simp
  from c0 c1 lens c2 c3 c4 show ?thesis
    unfolding n(1) L_def small_def by (simp only: nat_int)
qed

theorem getStream_window_count_witness:
  "length (emitted (fst (getStream sample_toFloat32
      \<lparr>base = [[(''a'', Scalar (Finite 1)), (''b'', Text ''x'')],
                [(''a'', Scalar (Finite 2)), (''b'', Text ''y'')],
                [(''a'', Scalar (Finite 3)), (''b'', Text ''z'')]],
       batchSize = 2, smallLastBatch = True\<rparr> []))) = 2
 \<and> map length (batch 2 True
      [[(''a'', Scalar (Finite 1)), (''b'', Text ''x'')],
       [(''a'', Scalar (Finite 2)), (''b'', Text ''y'')],
       [(''a'', Scalar (Finite 3)), (''b'', Text ''z'')]]) = [2, 1]"
proof -
  let ?base = "[[(''a'', Scalar (Finite 1)), (''b'', Text ''x'')],
                [(''a'', Scalar (Finite 2)), (''b'', Text ''y'')],
                [(''a'', Scalar (Finite 3)), (''b'', Text ''z'')]]"
  let ?ds = "\<lparr>base = ?base, batchSize = 2, smallLastBatch = True\<rparr>"
  have pos: "0 < batchSize ?ds" by simp
  have ok: "\<forall>w \<in> set (batch (batchSize ?ds) (smallLastBatch ?ds) (base ?ds)).
      \<not> isl (fst (makeDatasetBatch sample_toFloat32 w []))"
    by (simp add: stream_defs eval_defs)
  note t = getStream_window_count [OF pos, of sample_toFloat32 "[]"]
  have e: "length (emitted (fst (getStream sample_toFloat32 ?ds [])))
      = length (batch (batchSize ?ds) (smallLastBatch ?ds) (base ?ds))"
    using t [THEN conjunct2, THEN conjunct2, THEN conjunct2, THEN conjunct2, THEN conjunct2] ok
    by blast
  have "map length (batch (batchSize ?ds) (smallLastBatch ?ds) (base ?ds))
      = replicate (length (base ?ds) div nat (batchSize ?ds)) (nat (batchSize ?ds))
        @ (if smallLastBatch ?ds \<and> length (base ?ds) mod nat (batchSize ?ds) \<noteq> 0
           then [length (base ?ds) mod nat (batchSize ?ds)] else [])"
    by (rule t [THEN conjunct2, THEN conjunct2, THEN conjunct1])
  then have l: "map length (batch 2 True ?base) = [2, 1]"
    by simp
  have "length (batch 2 True ?base) = length (map length (batch 2 True ?base))"
    by (simp only: length_map)
  then have n2: "length (batch 2 True ?base) = 2"
    unfolding l by simp
  from e n2 l show ?thesis by simp
qed

text \<open>
  Claim C1, as stated for every record sequence, fails: with the two records
  \<open>{a:[1,2]}\<close> and \<open>{a:[1,2,3]}\<close> and \<open>batchSize\<close> 2, the only window fails
  to assemble, so no batch is emitted although \<open>ceil(2/2) = 1\<close>.
\<close>

theorem failing_window_emits_no_batch_counterexample:
  "length (emitted (fst (getStream sample_toFloat32
      \<lparr>base = [[(''a'', NumericArray [Finite 1, Finite 2])],
                [(''a'', NumericArray [Finite 1, Finite 2, Finite 3])]],
       batchSize = 2, smallLastBatch = True\<rparr> []))) = 0
 \<and> \<lceil>real (length [[(''a'', NumericArray [Finite 1, Finite 2])],
                [(''a'', NumericArray [Finite 1, Finite 2, Finite 3])]]) / real_of_int 2\<rceil> = 1"
  by (simp add: stream_defs eval_defs)

text \<open>
  Claim C8, as stated, fails: constructing with \<open>batchSize\<close> 0 or -1 returns the
  object.
\<close>

theorem constructor_accepts_nonpositive_counterexample:
  "BatchDataset_constructor ([] :: js_number DatasetElement list) 0 None
     = Inr \<lparr>base = [], batchSize = 0, smallLastBatch = True\<rparr>
 \<and> BatchDataset_constructor ([] :: js_number DatasetElement list) (- 1) None
     = Inr \<lparr>base = [], batchSize = - 1, smallLastBatch = True\<rparr>"
  by (simp add: BatchDataset_constructor_def)

text \<open>
  Claim C8, amended. The constructor validates nothing: for every \<open>batchSize\<close>,
  positive or not, construction succeeds and stores the arguments, and
  \<open>smallLastBatch\<close> is \<open>true\<close> when omitted.
\<close>

theorem constructor_never_fails:
  "\<exists>this. BatchDataset_constructor b n small = Inr this
        \<and> base this = b \<and> batchSize this = n
        \<and> smallLastBatch this = (case small of None \<Rightarrow> True | Some s \<Rightarrow> s)"
  by (simp add: BatchDataset_constructor_def)

end
